theory Spec2Isabelle
  imports Complex_Main "HOL-Library.AList"
begin

section \<open>PromiseQueue: a concurrency-limited, deduplicating job queue\<close>

text \<open>
  The class \<^verbatim>\<open>PromiseQueue\<close> is embedded as a state record and one function per
  method. JavaScript runs the queue on a single thread: every method call and every
  resumption of an \<^verbatim>\<open>async\<close> function after its \<^verbatim>\<open>await\<close> runs to completion before
  anything else happens. The atomic steps of the model are therefore the two public calls
  \<^verbatim>\<open>add\<close> and \<^verbatim>\<open>run\<close>, and the resumption of one suspended \<^verbatim>\<open>_runJob\<close> call when
  the promise of its worker settles. The worker itself (\<^verbatim>\<open>this._process\<close>) belongs to
  the caller: the model records each call of it and lets its promise fulfil or reject at
  any later step, with any error. It is typed as returning a promise, so a call of it
  does not throw synchronously.

  Names follow the source; the fields \<^verbatim>\<open>this._x\<close> are \<open>this_x\<close>, and \<^verbatim>\<open>_next\<close>,
  \<^verbatim>\<open>_reset\<close>, \<^verbatim>\<open>_runJob\<close> lose the leading underscore.
\<close>

subsection \<open>Deferred promises\<close>

type_synonym handle = nat

datatype 'e settlement = Pending | Fulfilled | Rejected 'e

text \<open>
  Modelled from the spec: \<^verbatim>\<open>makeDeferredWithPromise\<close> and the \<^verbatim>\<open>Deferred\<close> type come
  from \<^verbatim>\<open>./Deferred\<close>, which is not among the sources. The spec (4.1) describes a
  completion handle with the states pending, fulfilled and rejected, settled at most
  once, every later settlement being ignored. The store of all promises created so far is
  a list; a handle is an index into it and a new promise is appended in state
  \<open>Pending\<close>. The \<^verbatim>\<open>deferred\<close> and the \<^verbatim>\<open>promise\<close> of one pair are the same handle.
\<close>

definition settle :: "handle \<Rightarrow> 'e settlement \<Rightarrow> 'e settlement list \<Rightarrow> 'e settlement list" where
  "settle h v ps = (if h < length ps \<and> ps ! h = Pending then ps[h := v] else ps)"

definition lookup :: "'e settlement list \<Rightarrow> handle \<Rightarrow> 'e settlement option" where
  "lookup ps h = (if h < length ps then Some (ps ! h) else None)"

subsection \<open>The state\<close>

record Job =
  deferred :: handle
  promise :: handle
  retried :: bool

text \<open>
  \<^verbatim>\<open>maxConcurrent\<close> is a JavaScript number: a finite value (every double is a
  rational), \<^verbatim>\<open>Infinity\<close>, \<^verbatim>\<open>-Infinity\<close> or \<^verbatim>\<open>NaN\<close>. The counter \<^verbatim>\<open>_numRunning\<close>
  starts at 0 and only moves by \<^verbatim>\<open>++\<close> and \<^verbatim>\<open>--\<close>, so it is an integer. \<open>below n m\<close> is
  \<^verbatim>\<open>n < m\<close>, \<open>at_most n m\<close> is \<^verbatim>\<open>n <= m\<close> and \<open>nonpositive m\<close> is \<^verbatim>\<open>m <= 0\<close>; every
  comparison with \<^verbatim>\<open>NaN\<close> is false. \<open>whole m\<close> holds of the whole numbers and of
  \<^verbatim>\<open>Infinity\<close>.
\<close>

datatype number = Finite rat | Infinity | MinusInfinity | NaN

fun below :: "int \<Rightarrow> number \<Rightarrow> bool" where
  "below n (Finite q) = (of_int n < q)"
| "below n Infinity = True"
| "below n MinusInfinity = False"
| "below n NaN = False"

fun at_most :: "int \<Rightarrow> number \<Rightarrow> bool" where
  "at_most n (Finite q) = (of_int n \<le> q)"
| "at_most n Infinity = True"
| "at_most n MinusInfinity = False"
| "at_most n NaN = False"

fun nonpositive :: "number \<Rightarrow> bool" where
  "nonpositive (Finite q) = (q \<le> 0)"
| "nonpositive Infinity = False"
| "nonpositive MinusInfinity = True"
| "nonpositive NaN = False"

fun whole :: "number \<Rightarrow> bool" where
  "whole (Finite q) = (of_int \<lfloor>q\<rfloor> = q)"
| "whole Infinity = True"
| "whole MinusInfinity = False"
| "whole NaN = False"

datatype error = TypeError | NullthrowsError | AssertionError

record PromiseQueueOpts =
  maxConcurrent :: "number option"
  retry :: "bool option"

text \<open>
  The first seven fields are the fields of the class. The others are the world around
  it: \<open>promises\<close> is the store of deferred promises, \<open>awaiting\<close> holds the \<^verbatim>\<open>_runJob\<close>
  calls suspended at \<^verbatim>\<open>await this._process(key, ...args)\<close> (each with the \<^verbatim>\<open>job\<close>
  it read before), \<open>calls\<close> logs every call of the worker, and \<open>unhandled\<close> logs the
  errors with which the promise of an \<^verbatim>\<open>async _runJob\<close> call rejected (nobody
  observes that promise). \<^verbatim>\<open>_processing\<close> is a \<^verbatim>\<open>Map\<close>: an association list
  in insertion order, read with \<open>map_of\<close>.
\<close>

record ('k, 'a, 'e) PromiseQueue =
  this_deferred :: "handle option"
  this_maxConcurrent :: number
  this_numRunning :: int
  this_processing :: "('k \<times> Job) list"
  this_queue :: "('k \<times> 'a) list"
  this_retry :: bool
  this_runPromise :: "handle option"
  promises :: "'e settlement list"
  awaiting :: "('k \<times> 'a \<times> Job) list"
  calls :: "('k \<times> 'a \<times> Job) list"
  unhandled :: "error list"

subsection \<open>The methods\<close>

text \<open>
  Modelled from the spec: \<^verbatim>\<open>makeDeferredWithPromise\<close>, \<^verbatim>\<open>resolve\<close> and \<^verbatim>\<open>reject\<close> of
  \<^verbatim>\<open>./Deferred\<close>, which is not among the sources, on the store of the state. Creating a
  pair appends a pending promise and returns its handle; \<^verbatim>\<open>resolve\<close> and \<^verbatim>\<open>reject\<close> settle
  a pending promise and do nothing to a settled one (spec 4.1).
\<close>

definition makeDeferredWithPromise ::
  "('k, 'a, 'e) PromiseQueue \<Rightarrow> handle \<times> ('k, 'a, 'e) PromiseQueue" where
  "makeDeferredWithPromise s = (length (promises s), s\<lparr>promises := promises s @ [Pending]\<rparr>)"

definition resolve :: "handle \<Rightarrow> ('k, 'a, 'e) PromiseQueue \<Rightarrow> ('k, 'a, 'e) PromiseQueue" where
  "resolve h s = s\<lparr>promises := settle h Fulfilled (promises s)\<rparr>"

definition reject :: "handle \<Rightarrow> 'e \<Rightarrow> ('k, 'a, 'e) PromiseQueue \<Rightarrow> ('k, 'a, 'e) PromiseQueue" where
  "reject h err s = s\<lparr>promises := settle h (Rejected err) (promises s)\<rparr>"

text \<open>
  The constructor: it throws, or returns the new object, which has the two fields the
  constructor assigns and the initialisers of the class in the others.
\<close>

definition initial :: "number \<Rightarrow> bool \<Rightarrow> ('k, 'a, 'e) PromiseQueue" where
  "initial cap r =
     \<lparr>this_deferred = None,
      this_maxConcurrent = cap,
      this_numRunning = 0,
      this_processing = [],
      this_queue = [],
      this_retry = r,
      this_runPromise = None,
      promises = [],
      awaiting = [],
      calls = [],
      unhandled = []\<rparr>"

definition new_PromiseQueue :: "PromiseQueueOpts \<Rightarrow> error + ('k, 'a, 'e) PromiseQueue" where
  "new_PromiseQueue options =
     (if (case maxConcurrent options of None \<Rightarrow> False | Some m \<Rightarrow> nonpositive m)
      then Inl TypeError
      else Inr (initial
                 (case maxConcurrent options of None \<Rightarrow> Infinity | Some m \<Rightarrow> m)
                 (retry options \<noteq> Some False)))"

text \<open>
  \<^verbatim>\<open>_runJob\<close> up to its \<^verbatim>\<open>await\<close>: \<^verbatim>\<open>nullthrows\<close> throws when the key has no job,
  which in an \<^verbatim>\<open>async\<close> function rejects the promise of the call and leaves the state as
  it is; otherwise the counter goes up, the worker is called and the call is suspended.
\<close>

definition runJob :: "'k \<Rightarrow> 'a \<Rightarrow> ('k, 'a, 'e) PromiseQueue \<Rightarrow> ('k, 'a, 'e) PromiseQueue" where
  "runJob key args s =
     (case map_of (this_processing s) key of
        None \<Rightarrow> s\<lparr>unhandled := unhandled s @ [NullthrowsError]\<rparr>
      | Some job \<Rightarrow>
          s\<lparr>this_numRunning := this_numRunning s + 1,
            awaiting := awaiting s @ [(key, args, job)],
            calls := calls s @ [(key, args, job)]\<rparr>)"

definition reset :: "('k, 'a, 'e) PromiseQueue \<Rightarrow> ('k, 'a, 'e) PromiseQueue" where
  "reset s = s\<lparr>this_processing := [], this_runPromise := None, this_deferred := None\<rparr>"

lemma queue_runJob [simp]: "this_queue (runJob key args s) = this_queue s"
  by (simp add: runJob_def split: option.splits)

text \<open>The \<^verbatim>\<open>while\<close> loop of \<^verbatim>\<open>_next\<close>; \<^verbatim>\<open>shift\<close> takes the front of the queue.\<close>

function admit :: "('k, 'a, 'e) PromiseQueue \<Rightarrow> ('k, 'a, 'e) PromiseQueue" where
  "admit s =
     (case this_queue s of
        [] \<Rightarrow> s
      | (key, args) # rest \<Rightarrow>
          if below (this_numRunning s) (this_maxConcurrent s)
          then admit (runJob key args (s\<lparr>this_queue := rest\<rparr>))
          else s)"
  by pat_completeness auto
termination
  by (relation "measure (\<lambda>s. length (this_queue s))") auto

declare admit.simps [simp del]

text \<open>
  \<^verbatim>\<open>_next\<close> returns normally or throws the \<^verbatim>\<open>AssertionError\<close> of \<^verbatim>\<open>invariant\<close>; the
  state reached is returned in both cases.
\<close>

definition nextq :: "('k, 'a, 'e) PromiseQueue \<Rightarrow> error option \<times> ('k, 'a, 'e) PromiseQueue" where
  "nextq s =
     (if this_runPromise s = None then (None, s)
      else
        let s1 = (if this_queue s \<noteq> [] then admit s else s) in
        if this_processing s1 = [] then
          (case this_deferred s1 of
             None \<Rightarrow> (Some AssertionError, s1)
           | Some d \<Rightarrow> (None, reset (resolve d s1)))
        else (None, s1))"

text \<open>
  A call of \<^verbatim>\<open>_next\<close> from inside \<^verbatim>\<open>_runJob\<close>: a throw rejects the promise of the
  \<^verbatim>\<open>_runJob\<close> call.
\<close>

definition next_in_runJob :: "('k, 'a, 'e) PromiseQueue \<Rightarrow> ('k, 'a, 'e) PromiseQueue" where
  "next_in_runJob s =
     (case nextq s of
        (None, s') \<Rightarrow> s'
      | (Some e, s') \<Rightarrow> s'\<lparr>unhandled := unhandled s' @ [e]\<rparr>)"

definition add :: "'k \<Rightarrow> 'a \<Rightarrow> ('k, 'a, 'e) PromiseQueue \<Rightarrow> handle \<times> ('k, 'a, 'e) PromiseQueue" where
  "add key args s =
     (case map_of (this_processing s) key of
        Some existingJob \<Rightarrow> (promise existingJob, s)
      | None \<Rightarrow>
          let (h, s1) = makeDeferredWithPromise s;
              jobPromise = h;
              s2 = s1\<lparr>this_processing :=
                        AList.update key \<lparr>deferred = h, promise = jobPromise, retried = False\<rparr>
                          (this_processing s1)\<rparr>;
              s3 = (if this_runPromise s2 \<noteq> None
                       \<and> below (this_numRunning s2) (this_maxConcurrent s2)
                    then runJob key args s2
                    else s2\<lparr>this_queue := this_queue s2 @ [(key, args)]\<rparr>)
          in (jobPromise, s3))"

definition run :: "('k, 'a, 'e) PromiseQueue \<Rightarrow> (error + handle) \<times> ('k, 'a, 'e) PromiseQueue" where
  "run s =
     (case this_runPromise s of
        Some p \<Rightarrow> (Inr p, s)
      | None \<Rightarrow>
          let (h, s1) = makeDeferredWithPromise s;
              s2 = s1\<lparr>this_deferred := Some h, this_runPromise := Some h\<rparr>
          in (case nextq s2 of
                (None, s3) \<Rightarrow> (Inr h, s3)
              | (Some e, s3) \<Rightarrow> (Inl e, s3)))"

text \<open>
  The rest of \<^verbatim>\<open>_runJob\<close>, run when the promise of the worker has settled: \<open>Success\<close>
  is fulfilment, \<open>Failure err\<close> is rejection with \<open>err\<close>. The \<^verbatim>\<open>job\<close> is the one read
  before the \<^verbatim>\<open>await\<close>, whatever the registry holds for the key by now.
\<close>

datatype 'e outcome = Success | Failure 'e

definition runJob_resume ::
  "'k \<times> 'a \<times> Job \<Rightarrow> 'e outcome \<Rightarrow> ('k, 'a, 'e) PromiseQueue \<Rightarrow> ('k, 'a, 'e) PromiseQueue" where
  "runJob_resume act out s =
     (case act of (key, args, job) \<Rightarrow>
       (case out of
          Failure err \<Rightarrow>
            let s1 = s\<lparr>this_numRunning := this_numRunning s - 1\<rparr> in
            if this_retry s1 \<and> \<not> retried job then
              let s2 = s1\<lparr>this_processing :=
                            AList.update key (job\<lparr>retried := True\<rparr>) (this_processing s1)\<rparr>;
                  s3 = s2\<lparr>this_queue := this_queue s2 @ [(key, args)]\<rparr>
              in next_in_runJob s3
            else
              let s2 = s1\<lparr>this_processing := AList.delete key (this_processing s1)\<rparr>;
                  s3 = reject (deferred job) err s2;
                  s4 = (case this_deferred s3 of None \<Rightarrow> s3 | Some d \<Rightarrow> reject d err s3)
              in reset s4
        | Success \<Rightarrow>
            let s1 = resolve (deferred job) s;
                s2 = s1\<lparr>this_processing := AList.delete key (this_processing s1)\<rparr>;
                s3 = s2\<lparr>this_numRunning := this_numRunning s2 - 1\<rparr>
            in next_in_runJob s3))"

subsection \<open>Executions\<close>

text \<open>
  An event is a call of \<^verbatim>\<open>add\<close>, a call of \<^verbatim>\<open>run\<close>, or the settlement of the worker
  promise that the \<open>i\<close>-th suspended \<^verbatim>\<open>_runJob\<close> call awaits.
\<close>

datatype ('k, 'a, 'e) event = Add 'k 'a | Run | Settle nat "'e outcome"

fun step :: "('k, 'a, 'e) event \<Rightarrow> ('k, 'a, 'e) PromiseQueue \<Rightarrow> ('k, 'a, 'e) PromiseQueue" where
  "step (Add key args) s = snd (add key args s)"
| "step Run s = snd (run s)"
| "step (Settle i out) s =
     (if i < length (awaiting s)
      then runJob_resume (awaiting s ! i) out
             (s\<lparr>awaiting := take i (awaiting s) @ drop (Suc i) (awaiting s)\<rparr>)
      else s)"

fun exec :: "('k, 'a, 'e) event list \<Rightarrow> ('k, 'a, 'e) PromiseQueue \<Rightarrow> ('k, 'a, 'e) PromiseQueue" where
  "exec [] s = s"
| "exec (ev # evs) s = exec evs (step ev s)"

inductive reachable :: "('k, 'a, 'e) PromiseQueue \<Rightarrow> bool" where
  reachable_new: "new_PromiseQueue options = Inr s \<Longrightarrow> reachable s"
| reachable_step: "reachable s \<Longrightarrow> reachable (step ev s)"

subsection \<open>Invariants\<close>

text \<open>
  \<open>within_limit\<close>: the counter \<^verbatim>\<open>_numRunning\<close> does not exceed \<^verbatim>\<open>_maxConcurrent\<close>.
  \<open>count_ok\<close>: the counter is the number of suspended \<^verbatim>\<open>_runJob\<close> calls, that is, of
  worker calls in flight. \<open>counter_in R\<close>: the counter and the limit are related by \<open>R\<close>;
  \<open>counter_rule R\<close>: the relation survives an increment made below the limit, and every
  decrement.
\<close>

definition within_limit :: "('k, 'a, 'e) PromiseQueue \<Rightarrow> bool" where
  "within_limit s = at_most (this_numRunning s) (this_maxConcurrent s)"

definition counter_in :: "(int \<Rightarrow> number \<Rightarrow> bool) \<Rightarrow> ('k, 'a, 'e) PromiseQueue \<Rightarrow> bool" where
  "counter_in R s = R (this_numRunning s) (this_maxConcurrent s)"

definition counter_rule :: "(int \<Rightarrow> number \<Rightarrow> bool) \<Rightarrow> bool" where
  "counter_rule R = ((\<forall>n m. R n m \<and> below n m \<longrightarrow> R (n + 1) m) \<and> (\<forall>n m. R n m \<longrightarrow> R (n - 1) m))"

definition count_ok :: "('k, 'a, 'e) PromiseQueue \<Rightarrow> bool" where
  "count_ok s = (this_numRunning s = int (length (awaiting s)))"

text \<open>
  \<open>job_handles\<close> are the deferreds of the jobs in the registry and of the jobs held by
  suspended calls. \<open>cycle_ok\<close>: \<^verbatim>\<open>_deferred\<close> and \<^verbatim>\<open>_runPromise\<close> are set and cleared
  together; no job shares its deferred with the cycle; and while a cycle is active its
  promise is pending and the registry is not empty. \<open>cycle_pre\<close> is \<open>cycle_ok\<close> without the
  last part: it holds inside \<^verbatim>\<open>_runJob\<close> between the removal of the last job and the
  call of \<^verbatim>\<open>_next\<close>.
\<close>

definition job_handles :: "('k, 'a, 'e) PromiseQueue \<Rightarrow> handle set" where
  "job_handles s = (deferred \<circ> snd) ` set (this_processing s)
                     \<union> (deferred \<circ> snd \<circ> snd) ` set (awaiting s)"

definition cycle_ok :: "('k, 'a, 'e) PromiseQueue \<Rightarrow> bool" where
  "cycle_ok s = (this_deferred s = this_runPromise s
     \<and> (\<forall>h \<in> job_handles s. h < length (promises s) \<and> this_runPromise s \<noteq> Some h)
     \<and> (\<forall>c. this_runPromise s = Some c \<longrightarrow>
           lookup (promises s) c = Some Pending \<and> this_processing s \<noteq> []))"

definition cycle_pre :: "('k, 'a, 'e) PromiseQueue \<Rightarrow> bool" where
  "cycle_pre s = (this_deferred s = this_runPromise s
     \<and> (\<forall>h \<in> job_handles s. h < length (promises s) \<and> this_runPromise s \<noteq> Some h)
     \<and> (\<forall>c. this_runPromise s = Some c \<longrightarrow> lookup (promises s) c = Some Pending))"

text \<open>\<open>keeps_settled ps ps'\<close>: every promise settled in \<open>ps\<close> has the same state in \<open>ps'\<close>.\<close>

definition keeps_settled :: "'e settlement list \<Rightarrow> 'e settlement list \<Rightarrow> bool" where
  "keeps_settled ps ps' = (\<forall>h v. lookup ps h = Some v \<and> v \<noteq> Pending \<longrightarrow> lookup ps' h = Some v)"

section \<open>Lemmas\<close>

subsection \<open>The admission loop\<close>

lemma admit_empty: "this_queue s = [] \<Longrightarrow> admit s = s"
  by (subst admit.simps) simp

lemma admit_full:
  "\<not> below (this_numRunning s) (this_maxConcurrent s) \<Longrightarrow> admit s = s"
  by (subst admit.simps) (simp split: list.splits)

lemma admit_shift:
  "this_queue s = (key, args) # rest \<Longrightarrow> below (this_numRunning s) (this_maxConcurrent s) \<Longrightarrow>
     admit s = admit (runJob key args (s\<lparr>this_queue := rest\<rparr>))"
  by (subst admit.simps) simp

lemma admit_invariant:
  assumes "P s"
    and "\<And>s key args rest. P s \<Longrightarrow> this_queue s = (key, args) # rest \<Longrightarrow>
           below (this_numRunning s) (this_maxConcurrent s) \<Longrightarrow>
           P (runJob key args (s\<lparr>this_queue := rest\<rparr>))"
  shows "P (admit s)"
  using assms(1)
proof (induction s rule: admit.induct)
  case (1 s)
  show ?case
  proof (cases "this_queue s")
    case Nil
    then show ?thesis using "1.prems" by (simp add: admit_empty)
  next
    case (Cons ka rest)
    obtain key args where ka: "ka = (key, args)" by (cases ka)
    show ?thesis
    proof (cases "below (this_numRunning s) (this_maxConcurrent s)")
      case True
      have "P (runJob key args (s\<lparr>this_queue := rest\<rparr>))"
        using "1.prems" Cons ka True by (intro assms(2)) auto
      then have "P (admit (runJob key args (s\<lparr>this_queue := rest\<rparr>)))"
        by (rule "1.IH" [OF Cons ka [symmetric] True])
      then show ?thesis using Cons ka True by (simp add: admit_shift)
    next
      case False
      then show ?thesis using "1.prems" by (simp add: admit_full)
    qed
  qed
qed

lemma admit_fields [simp]:
  "this_processing (admit s) = this_processing s"
  "this_runPromise (admit s) = this_runPromise s"
  "this_deferred (admit s) = this_deferred s"
  "this_retry (admit s) = this_retry s"
  "this_maxConcurrent (admit s) = this_maxConcurrent s"
  "promises (admit s) = promises s"
  by (rule admit_invariant [where s = s]; simp add: runJob_def split: option.splits)+

lemma admit_no_job:
  assumes "this_processing s = []"
  shows "calls (admit s) = calls s \<and> awaiting (admit s) = awaiting s
           \<and> this_numRunning (admit s) = this_numRunning s"
proof -
  have "this_processing (admit s) = [] \<and> calls (admit s) = calls s
          \<and> awaiting (admit s) = awaiting s \<and> this_numRunning (admit s) = this_numRunning s"
    by (rule admit_invariant [where s = s and P = "\<lambda>t. this_processing t = [] \<and> calls t = calls s
          \<and> awaiting t = awaiting s \<and> this_numRunning t = this_numRunning s"])
       (auto simp: assms runJob_def)
  then show ?thesis by simp
qed

lemma counter_in_admit: "counter_rule R \<Longrightarrow> counter_in R s \<Longrightarrow> counter_in R (admit s)"
  by (rule admit_invariant [where s = s])
     (auto simp: counter_in_def counter_rule_def runJob_def split: option.splits)

lemma count_ok_admit: "count_ok s \<Longrightarrow> count_ok (admit s)"
  by (rule admit_invariant [where s = s]) (auto simp: count_ok_def runJob_def split: option.splits)

lemma job_handles_runJob: "job_handles (runJob key args s) = job_handles s"
  by (auto simp: job_handles_def runJob_def image_iff split: option.splits dest!: map_of_SomeD) force

lemma job_handles_admit: "job_handles (admit s) = job_handles s"
  by (rule admit_invariant [where s = s and P = "\<lambda>t. job_handles t = job_handles s"])
     (simp_all add: job_handles_runJob, simp add: job_handles_def)


subsection \<open>The promise store\<close>

lemma settle_length [simp]: "length (settle h v ps) = length ps"
  by (simp add: settle_def)

lemma lookup_settle_other: "h' \<noteq> h \<Longrightarrow> lookup (settle h v ps) h' = lookup ps h'"
  by (simp add: lookup_def settle_def)



lemma lookup_append_new: "lookup (ps @ [v]) (length ps) = Some v"
  by (simp add: lookup_def)

lemma lookup_Some_less: "lookup ps h = Some v \<Longrightarrow> h < length ps"
  by (simp add: lookup_def split: if_splits)

lemma set_update_subset: "set (AList.update k v al) \<subseteq> insert (k, v) (set al)"
  by (induction al) auto

lemma set_delete_subset: "set (AList.delete k al) \<subseteq> set al"
  by (induction al) auto

subsection \<open>The counter and the limit\<close>

lemma counter_in_nextq: "counter_rule R \<Longrightarrow> counter_in R s \<Longrightarrow> counter_in R (snd (nextq s))"
  using counter_in_admit [of R s]
  by (auto simp: nextq_def Let_def counter_in_def reset_def resolve_def split: option.splits)

lemma counter_in_next_in_runJob:
  "counter_rule R \<Longrightarrow> counter_in R s \<Longrightarrow> counter_in R (next_in_runJob s)"
  using counter_in_nextq [of R s]
  by (cases "nextq s") (auto simp: next_in_runJob_def counter_in_def split: option.splits)

lemma counter_in_add:
  "counter_rule R \<Longrightarrow> counter_in R s \<Longrightarrow> counter_in R (snd (add key args s))"
  by (auto simp: add_def makeDeferredWithPromise_def Let_def counter_in_def counter_rule_def
      runJob_def update_conv' split: option.splits)

lemma counter_in_run:
  assumes "counter_rule R" and "counter_in R s"
  shows "counter_in R (snd (run s))"
proof (cases "this_runPromise s")
  case None
  have "counter_in R (s\<lparr>promises := promises s @ [Pending],
                this_deferred := Some (length (promises s)),
                this_runPromise := Some (length (promises s))\<rparr>)"
    using assms(2) by (simp add: counter_in_def)
  from counter_in_nextq [OF assms(1) this] None show ?thesis
    by (auto simp: run_def makeDeferredWithPromise_def Let_def split: prod.splits option.splits)
next
  case (Some p)
  then show ?thesis using assms(2) by (simp add: run_def)
qed

lemma counter_in_resume:
  assumes "counter_rule R" and "counter_in R s"
  shows "counter_in R (runJob_resume act out s)"
proof -
  obtain key args job where act: "act = (key, args, job)" by (cases act)
  have dec: "R (this_numRunning s - 1) (this_maxConcurrent s)"
    using assms by (simp add: counter_in_def counter_rule_def)
  show ?thesis
  proof (cases out)
    case Success
    have "counter_in R (resolve (deferred job) s
             \<lparr>this_processing := AList.delete key (this_processing (resolve (deferred job) s)),
              this_numRunning := this_numRunning (resolve (deferred job) s) - 1\<rparr>)"
      using dec by (simp add: counter_in_def resolve_def)
    then show ?thesis using Success act assms(1)
      by (simp add: runJob_resume_def Let_def counter_in_next_in_runJob)
  next
    case (Failure err)
    show ?thesis
    proof (cases "this_retry s \<and> \<not> retried job")
      case True
      have "counter_in R (s\<lparr>this_numRunning := this_numRunning s - 1,
               this_processing := AList.update key (job\<lparr>retried := True\<rparr>) (this_processing s),
               this_queue := this_queue s @ [(key, args)]\<rparr>)"
        using dec by (simp add: counter_in_def)
      then show ?thesis using Failure act True assms(1)
        by (simp add: runJob_resume_def Let_def counter_in_next_in_runJob)
    next
      case False
      then show ?thesis using Failure act dec
        by (auto simp: runJob_resume_def Let_def counter_in_def reject_def reset_def
            split: option.splits)
    qed
  qed
qed

lemma counter_in_step:
  assumes "counter_rule R" and "counter_in R s"
  shows "counter_in R (step ev s)"
proof (cases ev)
  case (Add key args)
  then show ?thesis using assms by (simp add: counter_in_add)
next
  case Run
  then show ?thesis using assms by (simp add: counter_in_run)
next
  case (Settle i out)
  have "counter_in R (s\<lparr>awaiting := take i (awaiting s) @ drop (Suc i) (awaiting s)\<rparr>)"
    using assms(2) by (simp add: counter_in_def)
  then show ?thesis using Settle assms by (simp add: counter_in_resume)
qed

text \<open>Three relations that follow the rule.\<close>

lemma whole_below_at_most:
  assumes "whole m" and "below n m"
  shows "at_most (n + 1) m"
proof (cases m)
  case (Finite q)
  define k where "k = \<lfloor>q\<rfloor>"
  have q: "q = of_int k" using assms(1) Finite by (auto simp: k_def)
  have "of_int n < (of_int k :: rat)" using assms(2) Finite q by simp
  then have "n + 1 \<le> k" by simp
  then have "of_int (n + 1) \<le> (of_int k :: rat)" by (simp only: of_int_le_iff)
  then show ?thesis using Finite q by simp
next
  case Infinity
  then show ?thesis by simp
next
  case MinusInfinity
  then show ?thesis using assms(1) by simp
next
  case NaN
  then show ?thesis using assms(1) by simp
qed

lemma at_most_pred: "at_most n m \<Longrightarrow> at_most (n - 1) m"
  by (cases m) auto

lemma below_pred: "below n m \<Longrightarrow> below (n - 1) m"
  by (cases m) auto

lemma counter_rule_whole: "counter_rule (\<lambda>n m. whole m \<longrightarrow> at_most n m)"
  by (auto simp: counter_rule_def whole_below_at_most at_most_pred)

lemma below_pred2: "below (n - 1) m \<Longrightarrow> below (n - 2) m"
  by (cases m) auto

lemma counter_rule_near: "counter_rule (\<lambda>n m. 0 < n \<longrightarrow> below (n - 1) m)"
  by (auto simp: counter_rule_def below_pred2)

lemma counter_rule_same: "counter_rule (\<lambda>n m. m = m0)"
  by (simp add: counter_rule_def)

lemma maxConcurrent_step [simp]: "this_maxConcurrent (step ev s) = this_maxConcurrent s"
  using counter_in_step [OF counter_rule_same, of "this_maxConcurrent s" s ev]
  by (simp add: counter_in_def)

lemma maxConcurrent_add [simp]: "this_maxConcurrent (snd (add key args s)) = this_maxConcurrent s"
  using counter_in_add [OF counter_rule_same, of "this_maxConcurrent s" s key args]
  by (simp add: counter_in_def)

lemma maxConcurrent_run [simp]: "this_maxConcurrent (snd (run s)) = this_maxConcurrent s"
  using counter_in_run [OF counter_rule_same, of "this_maxConcurrent s" s]
  by (simp add: counter_in_def)

lemma maxConcurrent_resume [simp]:
  "this_maxConcurrent (runJob_resume act out s) = this_maxConcurrent s"
  using counter_in_resume [OF counter_rule_same, of "this_maxConcurrent s" s act out]
  by (simp add: counter_in_def)

lemma within_limit_kept:
  assumes "whole (this_maxConcurrent s)" and "within_limit s"
  shows "within_limit (snd (add key args s))" and "within_limit (snd (run s))"
    and "within_limit (runJob_resume act out s)" and "within_limit (admit s)"
    and "within_limit (step ev s)"
proof -
  let ?R = "\<lambda>n m. whole m \<longrightarrow> at_most n m"
  have c: "counter_in ?R s" using assms(2) by (simp add: counter_in_def within_limit_def)
  note r = counter_rule_whole
  show "within_limit (snd (add key args s))"
    using counter_in_add [OF r c, of key args] assms(1) by (simp add: counter_in_def within_limit_def)
  show "within_limit (snd (run s))"
    using counter_in_run [OF r c] assms(1) by (simp add: counter_in_def within_limit_def)
  show "within_limit (runJob_resume act out s)"
    using counter_in_resume [OF r c, of act out] assms(1)
    by (simp add: counter_in_def within_limit_def)
  show "within_limit (admit s)"
    using counter_in_admit [OF r c] assms(1) by (simp add: counter_in_def within_limit_def)
  show "within_limit (step ev s)"
    using counter_in_step [OF r c, of ev] assms(1) by (simp add: counter_in_def within_limit_def)
qed

subsection \<open>The counter counts the suspended calls\<close>

lemma count_ok_nextq: "count_ok s \<Longrightarrow> count_ok (snd (nextq s))"
  using count_ok_admit [of s]
  by (auto simp: nextq_def Let_def count_ok_def reset_def resolve_def split: option.splits)

lemma count_ok_next_in_runJob: "count_ok s \<Longrightarrow> count_ok (next_in_runJob s)"
  using count_ok_nextq [of s]
  by (cases "nextq s") (auto simp: next_in_runJob_def count_ok_def split: option.splits)

lemma count_ok_add: "count_ok s \<Longrightarrow> count_ok (snd (add key args s))"
  by (auto simp: add_def makeDeferredWithPromise_def Let_def count_ok_def runJob_def
      update_conv' split: option.splits)

lemma count_ok_run: "count_ok s \<Longrightarrow> count_ok (snd (run s))"
proof (cases "this_runPromise s")
  case None
  assume "count_ok s"
  then have "count_ok (s\<lparr>promises := promises s @ [Pending],
                this_deferred := Some (length (promises s)),
                this_runPromise := Some (length (promises s))\<rparr>)"
    by (simp add: count_ok_def)
  from count_ok_nextq [OF this] None show ?thesis
    by (auto simp: run_def makeDeferredWithPromise_def Let_def split: prod.splits option.splits)
next
  case (Some p)
  assume "count_ok s"
  then show ?thesis using Some by (simp add: run_def)
qed

lemma count_ok_resume:
  assumes "this_numRunning s = int (length (awaiting s)) + 1"
  shows "count_ok (runJob_resume act out s)"
proof -
  obtain key args job where act: "act = (key, args, job)" by (cases act)
  show ?thesis
  proof (cases out)
    case Success
    have "count_ok (resolve (deferred job) s
             \<lparr>this_processing := AList.delete key (this_processing (resolve (deferred job) s)),
              this_numRunning := this_numRunning (resolve (deferred job) s) - 1\<rparr>)"
      using assms by (simp add: count_ok_def resolve_def)
    then show ?thesis using Success act
      by (simp add: runJob_resume_def Let_def count_ok_next_in_runJob)
  next
    case (Failure err)
    show ?thesis
    proof (cases "this_retry s \<and> \<not> retried job")
      case True
      have "count_ok (s\<lparr>this_numRunning := this_numRunning s - 1,
               this_processing := AList.update key (job\<lparr>retried := True\<rparr>) (this_processing s),
               this_queue := this_queue s @ [(key, args)]\<rparr>)"
        using assms by (simp add: count_ok_def)
      then show ?thesis using Failure act True
        by (simp add: runJob_resume_def Let_def count_ok_next_in_runJob)
    next
      case False
      then show ?thesis using Failure act assms
        by (auto simp: runJob_resume_def Let_def count_ok_def reject_def reset_def
            split: option.splits)
    qed
  qed
qed

lemma count_ok_step: "count_ok s \<Longrightarrow> count_ok (step ev s)"
proof (cases ev)
  case (Add key args)
  assume "count_ok s" then show ?thesis using Add by (simp add: count_ok_add)
next
  case Run
  assume "count_ok s" then show ?thesis using Run by (simp add: count_ok_run)
next
  case (Settle i out)
  assume ok: "count_ok s"
  show ?thesis
  proof (cases "i < length (awaiting s)")
    case True
    let ?s0 = "s\<lparr>awaiting := take i (awaiting s) @ drop (Suc i) (awaiting s)\<rparr>"
    have "this_numRunning ?s0 = int (length (awaiting ?s0)) + 1"
      using True ok by (auto simp: count_ok_def)
    then have "count_ok (runJob_resume (awaiting s ! i) out ?s0)"
      by (rule count_ok_resume)
    then show ?thesis using Settle True by simp
  next
    case False
    then show ?thesis using Settle ok by simp
  qed
qed

lemma reachable_exec: "reachable s \<Longrightarrow> reachable (exec evs s)"
  by (induction evs arbitrary: s) (auto intro: reachable_step)

lemma reachable_initial:
  "\<not> nonpositive cap \<Longrightarrow> reachable (initial cap r :: ('k, 'a, 'e) PromiseQueue)"
proof -
  assume "\<not> nonpositive cap"
  then have "new_PromiseQueue \<lparr>maxConcurrent = Some cap, retry = Some r\<rparr>
      = Inr (initial cap r :: ('k, 'a, 'e) PromiseQueue)"
    by (auto simp: new_PromiseQueue_def)
  then show ?thesis by (rule reachable_new)
qed

lemma reachable_count_ok: "reachable s \<Longrightarrow> count_ok s"
proof (induction rule: reachable.induct)
  case (reachable_new options s)
  then show ?case
    by (auto simp: new_PromiseQueue_def initial_def count_ok_def split: if_splits)
next
  case (reachable_step s ev)
  then show ?case by (simp add: count_ok_step)
qed

lemma reachable_counter:
  "reachable s \<Longrightarrow>
     (whole (this_maxConcurrent s) \<longrightarrow> at_most (this_numRunning s) (this_maxConcurrent s))
     \<and> (0 < this_numRunning s \<longrightarrow> below (this_numRunning s - 1) (this_maxConcurrent s))"
proof (induction rule: reachable.induct)
  case (reachable_new options s)
  then have "this_numRunning s = 0" "\<not> nonpositive (this_maxConcurrent s)"
    by (auto simp: new_PromiseQueue_def initial_def split: if_splits option.splits)
  then show ?case by (cases "this_maxConcurrent s") auto
next
  case (reachable_step s ev)
  then show ?case
    using counter_in_step [OF counter_rule_whole, of s ev]
      counter_in_step [OF counter_rule_near, of s ev]
    by (simp add: counter_in_def)
qed

subsection \<open>The cycle invariant\<close>

lemma lookup_append_Some: "lookup ps h = Some v \<Longrightarrow> lookup (ps @ qs) h = Some v"
  by (simp add: lookup_def nth_append split: if_splits)

lemma cycle_pre_admit: "cycle_pre s \<Longrightarrow> cycle_pre (admit s)"
  by (simp add: cycle_pre_def job_handles_admit)

lemma job_handles_reset: "job_handles (reset s) \<subseteq> job_handles s"
  by (auto simp: job_handles_def reset_def)

lemma nextq_no_throw: "this_deferred s = this_runPromise s \<Longrightarrow> fst (nextq s) = None"
  by (auto simp: nextq_def Let_def split: option.splits)

lemma cycle_ok_nextq: 
  assumes "cycle_pre s"
  shows "cycle_ok (snd (nextq s))"
proof (cases "this_runPromise s")
  case None
  then show ?thesis using assms by (simp add: nextq_def cycle_pre_def cycle_ok_def)
next
  case (Some c)
  define s1 where "s1 = (if this_queue s \<noteq> [] then admit s else s)"
  have pre1: "cycle_pre s1" using assms by (simp add: s1_def cycle_pre_admit)
  have act1: "this_runPromise s1 = Some c" "this_deferred s1 = Some c"
    using Some assms by (auto simp: s1_def cycle_pre_def)
  show ?thesis
  proof (cases "this_processing s1 = []")
    case True
    have "snd (nextq s) = reset (resolve c s1)"
      using Some True act1 by (simp add: nextq_def s1_def [symmetric] Let_def)
    moreover have "cycle_ok (reset (resolve c s1))"
      using pre1 job_handles_reset [of "resolve c s1"]
      by (auto simp: cycle_ok_def cycle_pre_def reset_def resolve_def job_handles_def)
    ultimately show ?thesis by simp
  next
    case False
    have "snd (nextq s) = s1"
      using Some False by (simp add: nextq_def s1_def [symmetric] Let_def)
    then show ?thesis using pre1 False by (simp add: cycle_ok_def cycle_pre_def)
  qed
qed

lemma cycle_ok_next_in_runJob: "cycle_pre s \<Longrightarrow> cycle_ok (next_in_runJob s)"
  using cycle_ok_nextq [of s] nextq_no_throw [of s]
  by (cases "nextq s") (auto simp: next_in_runJob_def cycle_pre_def)

lemma cycle_ok_add:
  assumes "cycle_ok s"
  shows "cycle_ok (snd (add key args s))"
proof (cases "map_of (this_processing s) key")
  case (Some job)
  then show ?thesis using assms by (simp add: add_def)
next
  case None
  define h where "h = length (promises s)"
  define job where "job = \<lparr>deferred = h, promise = h, retried = False\<rparr>"
  define s2 where "s2 = s\<lparr>promises := promises s @ [Pending],
                         this_processing := AList.update key job (this_processing s)\<rparr>"
  have hs: "job_handles s2 \<subseteq> insert h (job_handles s)"
    using set_update_subset [of key job "this_processing s"]
    by (auto simp: job_handles_def s2_def job_def)
  have c2: "cycle_ok s2"
    unfolding cycle_ok_def
  proof (intro conjI ballI allI impI)
    show "this_deferred s2 = this_runPromise s2" using assms by (simp add: s2_def cycle_ok_def)
  next
    fix x assume "x \<in> job_handles s2"
    then have "x = h \<or> x \<in> job_handles s" using hs by auto
    then show "x < length (promises s2)" 
      using assms by (auto simp: s2_def cycle_ok_def h_def less_Suc_eq)
  next
    fix x assume "x \<in> job_handles s2"
    then have "x = h \<or> x \<in> job_handles s" using hs by auto
    then show "this_runPromise s2 \<noteq> Some x"
      using assms by (auto simp: s2_def cycle_ok_def h_def dest!: lookup_Some_less)
  next
    fix c assume "this_runPromise s2 = Some c"
    then show "lookup (promises s2) c = Some Pending"
      using assms by (auto simp: s2_def cycle_ok_def lookup_append_Some)
  next
    fix c assume "this_runPromise s2 = Some c"
    show "this_processing s2 \<noteq> []" by (simp add: s2_def)
  qed
  have "snd (add key args s) = (if this_runPromise s2 \<noteq> None
             \<and> below (this_numRunning s2) (this_maxConcurrent s2)
          then runJob key args s2 else s2\<lparr>this_queue := this_queue s2 @ [(key, args)]\<rparr>)"
    using None by (simp add: add_def makeDeferredWithPromise_def Let_def s2_def job_def h_def)
  moreover have "cycle_ok (runJob key args s2)"
    using c2 job_handles_runJob [of key args s2]
    by (simp add: cycle_ok_def) (simp add: runJob_def split: option.splits)
  moreover have "cycle_ok (s2\<lparr>this_queue := this_queue s2 @ [(key, args)]\<rparr>)"
    using c2 by (simp add: cycle_ok_def job_handles_def)
  ultimately show ?thesis by simp
qed

lemma cycle_ok_run:
  assumes "cycle_ok s"
  shows "cycle_ok (snd (run s))"
proof (cases "this_runPromise s")
  case (Some p)
  then show ?thesis using assms by (simp add: run_def)
next
  case None
  define h where "h = length (promises s)"
  define s2 where "s2 = s\<lparr>promises := promises s @ [Pending],
                         this_deferred := Some h, this_runPromise := Some h\<rparr>"
  have "cycle_pre s2"
    using assms by (auto simp: cycle_pre_def cycle_ok_def s2_def h_def job_handles_def
        lookup_append_new less_Suc_eq)
  then have "cycle_ok (snd (nextq s2))" by (rule cycle_ok_nextq)
  moreover have "snd (run s) = snd (nextq s2)"
    using None by (cases "nextq s2")
      (auto simp: run_def makeDeferredWithPromise_def Let_def s2_def h_def split: option.splits)
  ultimately show ?thesis by simp
qed

lemma cycle_ok_resume:
  assumes ok: "cycle_ok s"
    and h: "deferred job < length (promises s)" "this_runPromise s \<noteq> Some (deferred job)"
  shows "cycle_ok (runJob_resume (key, args, job) out s)"
proof (cases out)
  case Success
  define s3 where "s3 = resolve (deferred job) s
      \<lparr>this_processing := AList.delete key (this_processing (resolve (deferred job) s)),
       this_numRunning := this_numRunning (resolve (deferred job) s) - 1\<rparr>"
  have "job_handles s3 \<subseteq> job_handles s"
    using set_delete_subset [of key "this_processing s"]
    by (auto simp: job_handles_def s3_def resolve_def)
  then have "cycle_pre s3"
    using ok h by (auto simp: cycle_pre_def cycle_ok_def s3_def resolve_def lookup_settle_other)
  then have "cycle_ok (next_in_runJob s3)" by (rule cycle_ok_next_in_runJob)
  then show ?thesis using Success by (simp add: runJob_resume_def Let_def s3_def)
next
  case (Failure err)
  show ?thesis
  proof (cases "this_retry s \<and> \<not> retried job")
    case True
    define s3 where "s3 = s\<lparr>this_numRunning := this_numRunning s - 1,
               this_processing := AList.update key (job\<lparr>retried := True\<rparr>) (this_processing s),
               this_queue := this_queue s @ [(key, args)]\<rparr>"
    have "job_handles s3 \<subseteq> insert (deferred job) (job_handles s)"
      using set_update_subset [of key "job\<lparr>retried := True\<rparr>" "this_processing s"]
      by (auto simp: job_handles_def s3_def)
    then have "cycle_pre s3"
      using ok h by (auto simp: cycle_pre_def cycle_ok_def s3_def)
    then have "cycle_ok (next_in_runJob s3)" by (rule cycle_ok_next_in_runJob)
    then show ?thesis using Failure True by (simp add: runJob_resume_def Let_def s3_def)
  next
    case False
    have "job_handles (runJob_resume (key, args, job) out s) \<subseteq> job_handles s"
      using False Failure
      by (auto simp: runJob_resume_def Let_def job_handles_def reset_def reject_def
          split: option.splits)
    then show ?thesis
      using False Failure ok
      by (auto simp: cycle_ok_def runJob_resume_def Let_def reset_def reject_def
          split: option.splits)
  qed
qed

lemma cycle_ok_step:
  assumes "cycle_ok s"
  shows "cycle_ok (step ev s)"
proof (cases ev)
  case (Add key args)
  then show ?thesis using assms by (simp add: cycle_ok_add)
next
  case Run
  then show ?thesis using assms by (simp add: cycle_ok_run)
next
  case (Settle i out)
  show ?thesis
  proof (cases "i < length (awaiting s)")
    case True
    obtain key args job where act: "awaiting s ! i = (key, args, job)"
      by (cases "awaiting s ! i")
    let ?s0 = "s\<lparr>awaiting := take i (awaiting s) @ drop (Suc i) (awaiting s)\<rparr>"
    have "(key, args, job) \<in> set (awaiting s)"
      using True act by (metis nth_mem)
    then have "deferred job \<in> job_handles s"
      by (force simp: job_handles_def)
    then have h: "deferred job < length (promises ?s0)" "this_runPromise ?s0 \<noteq> Some (deferred job)"
      using assms by (auto simp: cycle_ok_def)
    have "set (awaiting ?s0) \<subseteq> set (awaiting s)"
      using set_take_subset [of i "awaiting s"] set_drop_subset [of "Suc i" "awaiting s"] by auto
    then have "job_handles ?s0 \<subseteq> job_handles s"
      by (auto simp: job_handles_def)
    then have "cycle_ok ?s0"
      using assms by (auto simp: cycle_ok_def)
    then have "cycle_ok (runJob_resume (key, args, job) out ?s0)"
      using h by (rule cycle_ok_resume)
    then show ?thesis using Settle True act by simp
  next
    case False
    then show ?thesis using Settle assms by simp
  qed
qed

lemma reachable_cycle_ok: "reachable s \<Longrightarrow> cycle_ok s"
proof (induction rule: reachable.induct)
  case (reachable_new options s)
  then show ?case
    by (auto simp: new_PromiseQueue_def initial_def cycle_ok_def job_handles_def
        split: if_splits option.splits)
next
  case (reachable_step s ev)
  then show ?case by (simp add: cycle_ok_step)
qed

subsection \<open>Settled promises stay settled\<close>

lemma keeps_settled_refl [simp]: "keeps_settled ps ps"
  by (simp add: keeps_settled_def)



lemma keeps_settled_append [simp]: "keeps_settled ps (ps @ qs)"
  by (simp add: keeps_settled_def lookup_append_Some)








subsection \<open>Single steps\<close>

lemma nextq_keeps_registry:
  "this_processing s \<noteq> [] \<Longrightarrow>
     fst (nextq s) = None \<and> this_processing (snd (nextq s)) = this_processing s"
  by (simp add: nextq_def Let_def)

lemma next_in_runJob_keeps_registry:
  "this_processing s \<noteq> [] \<Longrightarrow> this_processing (next_in_runJob s) = this_processing s"
  using nextq_keeps_registry [of s]
  by (cases "nextq s") (auto simp: next_in_runJob_def split: option.splits)

lemma runJob_resume_retry:
  assumes "this_retry s" and "\<not> retried job"
  shows "runJob_resume (key, args, job) (Failure err) s =
           next_in_runJob (s\<lparr>this_numRunning := this_numRunning s - 1,
              this_processing := AList.update key (job\<lparr>retried := True\<rparr>) (this_processing s),
              this_queue := this_queue s @ [(key, args)]\<rparr>)"
    and "this_processing (runJob_resume (key, args, job) (Failure err) s) =
           AList.update key (job\<lparr>retried := True\<rparr>) (this_processing s)"
  using assms by (simp_all add: runJob_resume_def Let_def next_in_runJob_keeps_registry)


lemma runPromise_add [simp]: "this_runPromise (snd (add key args s)) = this_runPromise s"
  by (auto simp: add_def makeDeferredWithPromise_def Let_def runJob_def split: option.splits)

lemma nextq_inactive: "this_runPromise s = None \<Longrightarrow> nextq s = (None, s)"
  by (simp add: nextq_def)

lemma next_in_runJob_inactive: "this_runPromise s = None \<Longrightarrow> next_in_runJob s = s"
  by (simp add: next_in_runJob_def nextq_inactive)

lemma inactive_step:
  assumes "this_runPromise s = None" and "ev \<noteq> Run"
  shows "this_runPromise (step ev s) = None \<and> calls (step ev s) = calls s"
proof (cases ev)
  case (Add key args)
  then show ?thesis using assms
    by (auto simp: add_def makeDeferredWithPromise_def Let_def split: option.splits)
next
  case Run
  then show ?thesis using assms by simp
next
  case (Settle i out)
  obtain key args job where act: "awaiting s ! i = (key, args, job)"
    by (cases "awaiting s ! i")
  show ?thesis using Settle assms act
    by (cases out)
       (auto simp: runJob_resume_def Let_def next_in_runJob_inactive reset_def reject_def
          resolve_def split: option.splits)
qed

lemma inactive_exec:
  "this_runPromise s = None \<Longrightarrow> Run \<notin> set evs \<Longrightarrow>
     this_runPromise (exec evs s) = None \<and> calls (exec evs s) = calls s"
proof (induction evs arbitrary: s)
  case Nil
  then show ?case by simp
next
  case (Cons ev evs)
  from Cons.prems have "this_runPromise (step ev s) = None \<and> calls (step ev s) = calls s"
    by (intro inactive_step) auto
  with Cons.IH [of "step ev s"] Cons.prems show ?case by simp
qed

lemma settle_append_new: "settle (length ps) v (ps @ [Pending]) = ps @ [v]"
  by (simp add: settle_def)

lemma run_empty:
  assumes "this_processing s = []" and "this_runPromise s = None"
  shows "\<exists>s'. run s = (Inr (length (promises s)), s')
           \<and> promises s' = promises s @ [Fulfilled]
           \<and> calls s' = calls s \<and> awaiting s' = awaiting s
           \<and> this_numRunning s' = this_numRunning s
           \<and> this_processing s' = [] \<and> this_runPromise s' = None \<and> this_deferred s' = None"
proof -
  define h where "h = length (promises s)"
  define s2 where "s2 = s\<lparr>promises := promises s @ [Pending],
                         this_deferred := Some h, this_runPromise := Some h\<rparr>"
  define s1 where "s1 = (if this_queue s2 \<noteq> [] then admit s2 else s2)"
  have e: "this_processing s2 = []" using assms by (simp add: s2_def)
  have s1: "this_processing s1 = []" "this_deferred s1 = Some h" "promises s1 = promises s @ [Pending]"
    "calls s1 = calls s" "awaiting s1 = awaiting s" "this_numRunning s1 = this_numRunning s"
    using admit_no_job [OF e] e by (auto simp: s1_def) (simp_all add: s2_def)
  have "nextq s2 = (None, reset (resolve h s1))"
    using s1 by (simp add: nextq_def Let_def s1_def [symmetric]) (simp add: s2_def)
  then have "run s = (Inr h, reset (resolve h s1))"
    using assms by (simp add: run_def makeDeferredWithPromise_def Let_def s2_def h_def)
  moreover have "promises (reset (resolve h s1)) = promises s @ [Fulfilled]"
    using s1 by (simp add: reset_def resolve_def h_def settle_append_new)
  ultimately show ?thesis using s1 by (simp add: h_def reset_def resolve_def)
qed


lemma nextq_ends_cycle:
  assumes "this_runPromise s \<noteq> None" and "this_runPromise (snd (nextq s)) = None"
  shows "this_processing (snd (nextq s)) = []"
  using assms by (auto simp: nextq_def Let_def reset_def resolve_def split: option.splits if_splits)

lemma next_in_runJob_ends_cycle:
  assumes "this_runPromise s \<noteq> None" and "this_runPromise (next_in_runJob s) = None"
  shows "this_processing (next_in_runJob s) = []"
  using assms nextq_ends_cycle [of s]
  by (cases "nextq s") (auto simp: next_in_runJob_def split: option.splits)

lemma resume_ends_cycle:
  assumes "this_runPromise s \<noteq> None" and "this_runPromise (runJob_resume act out s) = None"
  shows "this_processing (runJob_resume act out s) = []"
proof -
  obtain key args job where act: "act = (key, args, job)" by (cases act)
  show ?thesis
  proof (cases out)
    case Success
    then show ?thesis using assms act
      by (auto simp: runJob_resume_def Let_def resolve_def intro!: next_in_runJob_ends_cycle)
  next
    case (Failure err)
    then show ?thesis using assms act
      by (cases "this_retry s \<and> \<not> retried job")
         (auto simp: runJob_resume_def Let_def reset_def intro!: next_in_runJob_ends_cycle)
  qed
qed

lemma step_ends_cycle:
  assumes "this_runPromise s \<noteq> None" and "this_runPromise (step ev s) = None"
  shows "this_processing (step ev s) = []"
proof (cases ev)
  case (Add key args)
  then show ?thesis using assms by simp
next
  case Run
  then show ?thesis using assms by (auto simp: run_def)
next
  case (Settle i out)
  then show ?thesis using assms
    by (auto intro!: resume_ends_cycle split: if_splits)
qed

text \<open>
  What \<^verbatim>\<open>add\<close> does for a key with a job in the registry: it returns the promise of that
  job and changes nothing. The entry made by an \<^verbatim>\<open>add\<close> carries the promise that \<^verbatim>\<open>add\<close>
  returned, and the retry branch keeps the promise of the job it requeues.
\<close>

lemma add_registered_key:
  "(map_of (this_processing s) key = Some job \<longrightarrow> add key args' s = (promise job, s))
   \<and> (map_of (this_processing s) key = None \<longrightarrow>
        (\<exists>s' job'. add key args s = (length (promises s), s')
           \<and> map_of (this_processing s') key = Some job'
           \<and> promise job' = length (promises s) \<and> \<not> retried job'
           \<and> add key args' s' = (length (promises s), s')))
   \<and> (this_retry s \<and> \<not> retried job \<longrightarrow>
        (\<exists>s'. runJob_resume (key, args, job) (Failure err) s = s'
           \<and> map_of (this_processing s') key = Some (job\<lparr>retried := True\<rparr>)
           \<and> add key args' s' = (promise job, s')))"
proof (intro conjI impI)
  assume "map_of (this_processing s) key = Some job"
  then show "add key args' s = (promise job, s)"
    by (simp add: add_def)
next
  assume fresh: "map_of (this_processing s) key = None"
  define job' where
    "job' = \<lparr>deferred = length (promises s), promise = length (promises s), retried = False\<rparr>"
  obtain s' where s': "add key args s = (length (promises s), s')"
    using fresh by (simp add: add_def makeDeferredWithPromise_def Let_def)
  have reg: "map_of (this_processing s') key = Some job'"
    using fresh s'
    by (auto simp: add_def makeDeferredWithPromise_def Let_def runJob_def job'_def update_conv'
        split: if_splits)
  then show "\<exists>s' job'. add key args s = (length (promises s), s')
           \<and> map_of (this_processing s') key = Some job'
           \<and> promise job' = length (promises s) \<and> \<not> retried job'
           \<and> add key args' s' = (length (promises s), s')"
    using s' by (auto simp: add_def job'_def)
next
  assume "this_retry s \<and> \<not> retried job"
  then have "this_processing (runJob_resume (key, args, job) (Failure err) s)
      = AList.update key (job\<lparr>retried := True\<rparr>) (this_processing s)"
    by (simp add: runJob_resume_retry(2))
  then show "\<exists>s'. runJob_resume (key, args, job) (Failure err) s = s'
           \<and> map_of (this_processing s') key = Some (job\<lparr>retried := True\<rparr>)
           \<and> add key args' s' = (promise job, s')"
    by (simp add: add_def update_conv')
qed

section \<open>The claims\<close>

subsection \<open>The concurrency limit\<close>

text \<open>
  C1 as stated does not hold for every limit the constructor accepts: with
  \<^verbatim>\<open>maxConcurrent: 0.5\<close> one \<^verbatim>\<open>add\<close> and \<^verbatim>\<open>run\<close> start a job, since \<^verbatim>\<open>0 < 0.5\<close>, and
  the counter is 1, above the limit.
\<close>

theorem fractional_limit_exceeded:
  "new_PromiseQueue \<lparr>maxConcurrent = Some (Finite (1 / 2)), retry = None\<rparr>
     = Inr (initial (Finite (1 / 2)) True :: (nat, unit, nat) PromiseQueue)
   \<and> this_numRunning (exec [Add 1 (), Run]
         (initial (Finite (1 / 2)) True :: (nat, unit, nat) PromiseQueue)) = 1
   \<and> this_maxConcurrent (exec [Add 1 (), Run]
         (initial (Finite (1 / 2)) True :: (nat, unit, nat) PromiseQueue)) = Finite (1 / 2)
   \<and> \<not> at_most
         (this_numRunning (exec [Add 1 (), Run]
           (initial (Finite (1 / 2)) True :: (nat, unit, nat) PromiseQueue)))
         (this_maxConcurrent (exec [Add 1 (), Run]
           (initial (Finite (1 / 2)) True :: (nat, unit, nat) PromiseQueue)))"
  by code_simp

text \<open>
  C1, amended: for every configured limit that is a whole number, or \<^verbatim>\<open>Infinity\<close>, in
  every reachable state of a queue the counter \<^verbatim>\<open>_numRunning\<close> is at most
  \<^verbatim>\<open>_maxConcurrent\<close> and is the number of worker calls in flight; and from any state
  within such a limit, \<^verbatim>\<open>add\<close>, \<^verbatim>\<open>run\<close>, the settlement of a worker promise and the
  admission loop each lead to a state within the limit. For every limit, whole or not, the
  counter of a reachable state is the number of worker calls in flight and, when
  positive, is less than the limit plus one.
\<close>

theorem running_count_within_whole_limit:
  "(reachable s \<and> whole (this_maxConcurrent s) \<longrightarrow>
      at_most (this_numRunning s) (this_maxConcurrent s)
      \<and> this_numRunning s = int (length (awaiting s)))
   \<and> (whole (this_maxConcurrent s) \<and> within_limit s \<longrightarrow>
      within_limit (snd (add key args s)) \<and> within_limit (snd (run s))
      \<and> within_limit (runJob_resume act out s) \<and> within_limit (admit s)
      \<and> within_limit (step ev s))
   \<and> (reachable s \<longrightarrow>
      this_numRunning s = int (length (awaiting s))
      \<and> (0 < this_numRunning s \<longrightarrow> below (this_numRunning s - 1) (this_maxConcurrent s)))"
  using reachable_counter [of s] reachable_count_ok [of s] within_limit_kept [of s]
  by (auto simp: count_ok_def)

theorem running_count_within_whole_limit_witness:
  "reachable (exec [Add 1 (), Add 2 (), Run] (initial (Finite 1) True :: (nat, unit, nat) PromiseQueue))
   \<and> whole (this_maxConcurrent (exec [Add 1 (), Add 2 (), Run] (initial (Finite 1) True :: (nat, unit, nat) PromiseQueue)))
   \<and> this_maxConcurrent (exec [Add 1 (), Add 2 (), Run] (initial (Finite 1) True :: (nat, unit, nat) PromiseQueue)) = Finite 1
   \<and> this_numRunning (exec [Add 1 (), Add 2 (), Run] (initial (Finite 1) True :: (nat, unit, nat) PromiseQueue)) = 1
   \<and> length (awaiting (exec [Add 1 (), Add 2 (), Run] (initial (Finite 1) True :: (nat, unit, nat) PromiseQueue))) = 1
   \<and> this_queue (exec [Add 1 (), Add 2 (), Run] (initial (Finite 1) True :: (nat, unit, nat) PromiseQueue)) = [(2, ())]
   \<and> at_most (this_numRunning (exec [Add 1 (), Add 2 (), Run] (initial (Finite 1) True :: (nat, unit, nat) PromiseQueue)))
        (this_maxConcurrent (exec [Add 1 (), Add 2 (), Run] (initial (Finite 1) True :: (nat, unit, nat) PromiseQueue)))
   \<and> within_limit (step (Settle 0 (Failure 7))
        (exec [Add 1 (), Add 2 (), Run] (initial (Finite 1) True :: (nat, unit, nat) PromiseQueue)))
   \<and> below (this_numRunning (exec [Add 1 (), Add 2 (), Run] (initial (Finite 1) True :: (nat, unit, nat) PromiseQueue)) - 1)
        (this_maxConcurrent (exec [Add 1 (), Add 2 (), Run] (initial (Finite 1) True :: (nat, unit, nat) PromiseQueue)))"
proof -
  define s where "s = exec [Add 1 (), Add 2 (), Run] (initial (Finite 1) True :: (nat, unit, nat) PromiseQueue)"
  have r: "reachable s"
    unfolding s_def by (intro reachable_exec reachable_initial) simp
  have l: "whole (this_maxConcurrent s)" "this_maxConcurrent s = Finite 1"
    "this_numRunning s = 1" "length (awaiting s) = 1" "this_queue s = [(2, ())]"
    "0 < this_numRunning s"
    unfolding s_def by code_simp+
  note T = running_count_within_whole_limit [of s _ _ _ _ "Settle 0 (Failure 7)"]
  from T r l(1) have a: "at_most (this_numRunning s) (this_maxConcurrent s)"
    by blast
  then have "within_limit s" by (simp only: within_limit_def)
  with T l(1) have b: "within_limit (step (Settle 0 (Failure 7)) s)"
    by blast
  from T r l(6) have c: "below (this_numRunning s - 1) (this_maxConcurrent s)"
    by blast
  from r l(1-5) a b c show ?thesis
    unfolding s_def by blast
qed

subsection \<open>Deduplication\<close>

text \<open>
  C2: the claim says that, while a key has a job in the registry, every \<^verbatim>\<open>add\<close> with the
  key returns the promise the first \<^verbatim>\<open>add\<close> returned. The execution below contradicts it.
  With retry enabled and no limit, keys 1 and 2 are added and run; key 2 fails, is
  retried and fails again, which ends the cycle and empties the registry while the first
  call for key 1 is still in flight. \<^verbatim>\<open>add(1)\<close> creates a new job and returns promise 3.
  The call in flight then fails: its retry branch writes its own job, with promise 0, over
  the new entry. Key 1 never left the registry, yet the next \<^verbatim>\<open>add(1)\<close> returns promise
  0. After another \<^verbatim>\<open>run\<close> and the success of both queued calls the queue is drained and
  promise 3 is still pending.
\<close>

theorem handle_replaced_by_call_in_flight:
  "new_PromiseQueue \<lparr>maxConcurrent = None, retry = None\<rparr>
     = Inr (initial Infinity True :: (nat, unit, nat) PromiseQueue)
   \<and> map_of (this_processing (exec [Add 1 (), Add 2 (), Run, Settle 1 (Failure 7), Settle 1 (Failure 8)]
        (initial Infinity True :: (nat, unit, nat) PromiseQueue))) 1 = None
   \<and> fst (add 1 () (exec [Add 1 (), Add 2 (), Run, Settle 1 (Failure 7), Settle 1 (Failure 8)]
        (initial Infinity True :: (nat, unit, nat) PromiseQueue))) = 3
   \<and> map_of (this_processing (exec [Add 1 (), Add 2 (), Run, Settle 1 (Failure 7), Settle 1 (Failure 8),
          Add 1 ()]
        (initial Infinity True :: (nat, unit, nat) PromiseQueue))) 1
       = Some \<lparr>deferred = 3, promise = 3, retried = False\<rparr>
   \<and> map_of (this_processing (exec [Add 1 (), Add 2 (), Run, Settle 1 (Failure 7), Settle 1 (Failure 8),
          Add 1 (), Settle 0 (Failure 9)]
        (initial Infinity True :: (nat, unit, nat) PromiseQueue))) 1
       = Some \<lparr>deferred = 0, promise = 0, retried = True\<rparr>
   \<and> fst (add 1 () (exec [Add 1 (), Add 2 (), Run, Settle 1 (Failure 7), Settle 1 (Failure 8),
          Add 1 (), Settle 0 (Failure 9)]
        (initial Infinity True :: (nat, unit, nat) PromiseQueue))) = 0
   \<and> this_processing (exec [Add 1 (), Add 2 (), Run, Settle 1 (Failure 7), Settle 1 (Failure 8),
          Add 1 (), Settle 0 (Failure 9), Add 1 (), Run, Settle 0 Success, Settle 0 Success]
        (initial Infinity True :: (nat, unit, nat) PromiseQueue)) = []
   \<and> this_queue (exec [Add 1 (), Add 2 (), Run, Settle 1 (Failure 7), Settle 1 (Failure 8),
          Add 1 (), Settle 0 (Failure 9), Add 1 (), Run, Settle 0 Success, Settle 0 Success]
        (initial Infinity True :: (nat, unit, nat) PromiseQueue)) = []
   \<and> awaiting (exec [Add 1 (), Add 2 (), Run, Settle 1 (Failure 7), Settle 1 (Failure 8),
          Add 1 (), Settle 0 (Failure 9), Add 1 (), Run, Settle 0 Success, Settle 0 Success]
        (initial Infinity True :: (nat, unit, nat) PromiseQueue)) = []
   \<and> promises (exec [Add 1 (), Add 2 (), Run, Settle 1 (Failure 7), Settle 1 (Failure 8),
          Add 1 (), Settle 0 (Failure 9), Add 1 (), Run, Settle 0 Success, Settle 0 Success]
        (initial Infinity True :: (nat, unit, nat) PromiseQueue))
       = [Fulfilled, Rejected 8, Rejected 8, Pending, Fulfilled]"
  by code_simp

subsection \<open>Terminal failure\<close>



subsection \<open>Retry\<close>

text \<open>
  C4: the claim bounds the worker calls per admitted job by two and makes the failure of a
  second attempt terminal. The execution below contradicts it. With retry enabled and no
  limit, the keys 1, 2, 3 are added and run; key 3 and key 2 fail once and are retried, the
  retry of key 2 fails and ends the cycle; the first attempt of key 1, still in flight,
  fails and is put back in the queue while no cycle is active; the retry of key 3 fails and
  clears the registry once more, but not the queue. A new \<^verbatim>\<open>add(1)\<close> creates the job with
  deferred 4 and a second queue entry for key 1; \<^verbatim>\<open>run\<close> starts both entries with that
  job, and each of the two failures requeues it. The job with deferred 4 is called four
  times and retried twice; key 1 is called five times for two jobs.
\<close>

theorem job_retried_twice:
  "new_PromiseQueue \<lparr>maxConcurrent = None, retry = None\<rparr>
     = Inr (initial Infinity True :: (nat, unit, nat) PromiseQueue)
   \<and> calls (exec [Add 1 (), Add 2 (), Add 3 (), Run,
                  Settle 2 (Failure 7), Settle 1 (Failure 8), Settle 2 (Failure 9),
                  Settle 0 (Failure 10), Settle 0 (Failure 11),
                  Add 1 (), Run, Settle 0 (Failure 12), Settle 0 (Failure 13)]
        (initial Infinity True :: (nat, unit, nat) PromiseQueue))
      = [(1, (), \<lparr>deferred = 0, promise = 0, retried = False\<rparr>),
         (2, (), \<lparr>deferred = 1, promise = 1, retried = False\<rparr>),
         (3, (), \<lparr>deferred = 2, promise = 2, retried = False\<rparr>),
         (3, (), \<lparr>deferred = 2, promise = 2, retried = True\<rparr>),
         (2, (), \<lparr>deferred = 1, promise = 1, retried = True\<rparr>),
         (1, (), \<lparr>deferred = 4, promise = 4, retried = False\<rparr>),
         (1, (), \<lparr>deferred = 4, promise = 4, retried = False\<rparr>),
         (1, (), \<lparr>deferred = 4, promise = 4, retried = True\<rparr>),
         (1, (), \<lparr>deferred = 4, promise = 4, retried = True\<rparr>)]"
  by code_simp

subsection \<open>The pending queue and the registry\<close>

text \<open>
  C5: the claim says that every entry of the pending queue has a job in the registry, also
  after a terminal failure. The execution below contradicts it. With limit 1 and retry
  disabled, keys 1 and 2 are added and run; key 1 is started and key 2 waits. The worker of
  key 1 rejects: \<^verbatim>\<open>_reset\<close> empties the registry and leaves \<^verbatim>\<open>[2, []]\<close> in the queue. The
  next \<^verbatim>\<open>run\<close> takes that entry, \<^verbatim>\<open>nullthrows\<close> fails in \<^verbatim>\<open>_runJob\<close>, the worker of key 2
  is never called and the promise that \<^verbatim>\<open>add(2)\<close> returned stays pending.
\<close>

theorem pending_entry_without_registry_entry:
  "new_PromiseQueue \<lparr>maxConcurrent = Some (Finite 1), retry = Some False\<rparr>
     = Inr (initial (Finite 1) False :: (nat, unit, nat) PromiseQueue)
   \<and> this_queue (exec [Add 1 (), Add 2 (), Run, Settle 0 (Failure 7)]
        (initial (Finite 1) False :: (nat, unit, nat) PromiseQueue)) = [(2, ())]
   \<and> this_processing (exec [Add 1 (), Add 2 (), Run, Settle 0 (Failure 7)]
        (initial (Finite 1) False :: (nat, unit, nat) PromiseQueue)) = []
   \<and> map_of (this_processing (exec [Add 1 (), Add 2 (), Run, Settle 0 (Failure 7)]
        (initial (Finite 1) False :: (nat, unit, nat) PromiseQueue))) 2 = None
   \<and> unhandled (exec [Add 1 (), Add 2 (), Run, Settle 0 (Failure 7), Run]
        (initial (Finite 1) False :: (nat, unit, nat) PromiseQueue)) = [NullthrowsError]
   \<and> calls (exec [Add 1 (), Add 2 (), Run, Settle 0 (Failure 7), Run]
        (initial (Finite 1) False :: (nat, unit, nat) PromiseQueue))
      = [(1, (), \<lparr>deferred = 0, promise = 0, retried = False\<rparr>)]
   \<and> lookup (promises (exec [Add 1 (), Add 2 (), Run, Settle 0 (Failure 7), Run]
        (initial (Finite 1) False :: (nat, unit, nat) PromiseQueue))) 1 = Some Pending"
  by code_simp

subsection \<open>The end of a cycle\<close>

text \<open>
  C6 as stated does not hold: with limit 2 and retry disabled, keys 1, 2, 3 are added and
  run, so 1 and 2 are started and 3 waits. The worker of key 1 rejects; the cycle ends, the
  counter is 1 (the call for key 2 is still in flight) and the queue still holds key 3.
\<close>

theorem cycle_end_keeps_pending_and_count:
  "new_PromiseQueue \<lparr>maxConcurrent = Some (Finite 2), retry = Some False\<rparr>
     = Inr (initial (Finite 2) False :: (nat, unit, nat) PromiseQueue)
   \<and> this_runPromise (exec [Add 1 (), Add 2 (), Add 3 (), Run]
         (initial (Finite 2) False :: (nat, unit, nat) PromiseQueue)) = Some 3
   \<and> this_runPromise (exec [Add 1 (), Add 2 (), Add 3 (), Run, Settle 0 (Failure 7)]
         (initial (Finite 2) False :: (nat, unit, nat) PromiseQueue)) = None
   \<and> this_numRunning (exec [Add 1 (), Add 2 (), Add 3 (), Run, Settle 0 (Failure 7)]
         (initial (Finite 2) False :: (nat, unit, nat) PromiseQueue)) = 1
   \<and> this_queue (exec [Add 1 (), Add 2 (), Add 3 (), Run, Settle 0 (Failure 7)]
         (initial (Finite 2) False :: (nat, unit, nat) PromiseQueue)) = [(3, ())]
   \<and> awaiting (exec [Add 1 (), Add 2 (), Add 3 (), Run, Settle 0 (Failure 7)]
         (initial (Finite 2) False :: (nat, unit, nat) PromiseQueue))
       = [(2, (), \<lparr>deferred = 1, promise = 1, retried = False\<rparr>)]"
  by code_simp

text \<open>
  C6, amended: whenever a step ends a cycle (the queue has a cycle promise before the step
  and none after), the registry is empty and \<^verbatim>\<open>_deferred\<close> is cleared with \<^verbatim>\<open>_runPromise\<close>;
  the counter is not set to 0: it still is the number of worker calls in flight.
  \<^verbatim>\<open>_reset\<close> itself clears the registry, \<^verbatim>\<open>_runPromise\<close> and \<^verbatim>\<open>_deferred\<close> and keeps the
  counter.
\<close>

theorem cycle_end_resets:
  assumes "reachable s" and "this_runPromise s \<noteq> None" and "this_runPromise (step ev s) = None"
  shows "this_processing (step ev s) = []
     \<and> this_deferred (step ev s) = None
     \<and> this_numRunning (step ev s) = int (length (awaiting (step ev s)))
     \<and> this_processing (reset s) = [] \<and> this_runPromise (reset s) = None
     \<and> this_deferred (reset s) = None \<and> this_numRunning (reset s) = this_numRunning s"
proof -
  have "reachable (step ev s)" using assms(1) by (rule reachable_step)
  then have "cycle_ok (step ev s)" "count_ok (step ev s)"
    using reachable_cycle_ok reachable_count_ok by blast+
  then have "this_deferred (step ev s) = None"
    "this_numRunning (step ev s) = int (length (awaiting (step ev s)))"
    using assms(3) by (simp_all add: cycle_ok_def count_ok_def)
  moreover have "this_processing (step ev s) = []"
    using assms(2,3) by (rule step_ends_cycle)
  ultimately show ?thesis by (simp add: reset_def)
qed

theorem cycle_end_resets_witness:
  "reachable (exec [Add 1 (), Add 2 (), Run] (initial Infinity False :: (nat, unit, nat) PromiseQueue))
   \<and> this_runPromise (exec [Add 1 (), Add 2 (), Run]
         (initial Infinity False :: (nat, unit, nat) PromiseQueue)) \<noteq> None
   \<and> this_runPromise (step (Settle 1 (Failure 7)) (exec [Add 1 (), Add 2 (), Run]
         (initial Infinity False :: (nat, unit, nat) PromiseQueue))) = None
   \<and> this_processing (step (Settle 1 (Failure 7)) (exec [Add 1 (), Add 2 (), Run]
         (initial Infinity False :: (nat, unit, nat) PromiseQueue))) = []
   \<and> this_deferred (step (Settle 1 (Failure 7)) (exec [Add 1 (), Add 2 (), Run]
         (initial Infinity False :: (nat, unit, nat) PromiseQueue))) = None
   \<and> this_numRunning (step (Settle 1 (Failure 7)) (exec [Add 1 (), Add 2 (), Run]
         (initial Infinity False :: (nat, unit, nat) PromiseQueue)))
      = int (length (awaiting (step (Settle 1 (Failure 7)) (exec [Add 1 (), Add 2 (), Run]
         (initial Infinity False :: (nat, unit, nat) PromiseQueue)))))
   \<and> length (awaiting (step (Settle 1 (Failure 7)) (exec [Add 1 (), Add 2 (), Run]
         (initial Infinity False :: (nat, unit, nat) PromiseQueue)))) = 1"
proof -
  define s where "s = exec [Add 1 (), Add 2 (), Run] (initial Infinity False :: (nat, unit, nat) PromiseQueue)"
  define s' where "s' = step (Settle 1 (Failure 7)) s"
  have r: "reachable s"
    unfolding s_def by (intro reachable_exec reachable_initial) simp
  have e: "this_runPromise s \<noteq> None" "this_runPromise s' = None" "length (awaiting s') = 1"
    unfolding s'_def s_def by code_simp+
  from cycle_end_resets [OF r e(1) e(2) [unfolded s'_def], folded s'_def]
  have "this_processing s' = []" "this_deferred s' = None"
    "this_numRunning s' = int (length (awaiting s'))"
    by blast+
  with r e show ?thesis
    unfolding s'_def s_def by blast
qed

subsection \<open>Calling run again\<close>

text \<open>
  C7: while a cycle is active, \<^verbatim>\<open>run\<close> returns the promise of the cycle and changes
  nothing. That promise is the one the first call returned: \<^verbatim>\<open>run\<close> on a queue with jobs and
  no cycle returns a new promise and leaves the cycle active with it, and the next \<^verbatim>\<open>run\<close>
  returns the same promise.
\<close>

theorem run_idempotent_while_active:
  "(this_runPromise s = Some p \<longrightarrow> run s = (Inr p, s))
   \<and> (this_runPromise s = None \<and> this_processing s \<noteq> [] \<longrightarrow>
        (\<exists>s'. run s = (Inr (length (promises s)), s')
           \<and> this_runPromise s' = Some (length (promises s))
           \<and> run s' = (Inr (length (promises s)), s')))"
  by (auto simp: run_def nextq_def makeDeferredWithPromise_def Let_def split: option.splits)

theorem run_idempotent_while_active_witness:
  "this_runPromise (exec [Add 1 (), Run] (initial Infinity True :: (nat, unit, nat) PromiseQueue)) = Some 1
   \<and> run (exec [Add 1 (), Run] (initial Infinity True :: (nat, unit, nat) PromiseQueue))
       = (Inr 1, exec [Add 1 (), Run] (initial Infinity True))
   \<and> this_runPromise (exec [Add 1 ()] (initial Infinity True :: (nat, unit, nat) PromiseQueue)) = None
   \<and> this_processing (exec [Add 1 ()] (initial Infinity True :: (nat, unit, nat) PromiseQueue)) \<noteq> []
   \<and> (\<exists>s'. run (exec [Add 1 ()] (initial Infinity True :: (nat, unit, nat) PromiseQueue)) = (Inr 1, s')
         \<and> this_runPromise s' = Some 1 \<and> run s' = (Inr 1, s'))"
proof -
  let ?s1 = "exec [Add 1 (), Run] (initial Infinity True :: (nat, unit, nat) PromiseQueue)"
  let ?s0 = "exec [Add 1 ()] (initial Infinity True :: (nat, unit, nat) PromiseQueue)"
  have a: "this_runPromise ?s1 = Some 1" by code_simp
  have b: "this_runPromise ?s0 = None" "this_processing ?s0 \<noteq> []" "length (promises ?s0) = 1"
    by code_simp+
  from a run_idempotent_while_active [of ?s1 1] have c: "run ?s1 = (Inr 1, ?s1)" by blast
  from b run_idempotent_while_active [of ?s0]
  have d: "\<exists>s'. run ?s0 = (Inr 1, s') \<and> this_runPromise s' = Some 1 \<and> run s' = (Inr 1, s')"
    by metis
  from a b c d show ?thesis by blast
qed

subsection \<open>Construction\<close>

text \<open>
  C8: the constructor throws exactly when \<^verbatim>\<open>maxConcurrent\<close> is given and is zero or
  negative (a finite value that is at most 0, or \<^verbatim>\<open>-Infinity\<close>), and the error is the
  \<^verbatim>\<open>TypeError\<close>; otherwise it returns a queue. Without \<^verbatim>\<open>maxConcurrent\<close> the limit is
  \<^verbatim>\<open>Infinity\<close>, which every count is below; without \<^verbatim>\<open>retry\<close>, retry is enabled.
\<close>

theorem new_PromiseQueue_validation:
  "((new_PromiseQueue options :: error + ('k, 'a, 'e) PromiseQueue) = Inl TypeError)
     = (\<exists>m. maxConcurrent options = Some m
           \<and> (m = MinusInfinity \<or> (\<exists>q. m = Finite q \<and> q \<le> 0)))
   \<and> ((\<exists>s :: ('k, 'a, 'e) PromiseQueue. new_PromiseQueue options = Inr s)
     = (\<not> (\<exists>m. maxConcurrent options = Some m
           \<and> (m = MinusInfinity \<or> (\<exists>q. m = Finite q \<and> q \<le> 0)))))
   \<and> (maxConcurrent options = None \<longrightarrow>
     (\<exists>s :: ('k, 'a, 'e) PromiseQueue. new_PromiseQueue options = Inr s
        \<and> this_maxConcurrent s = Infinity \<and> (\<forall>n. below n (this_maxConcurrent s))))
   \<and> (retry options = None \<longrightarrow>
     (\<forall>s :: ('k, 'a, 'e) PromiseQueue. new_PromiseQueue options = Inr s \<longrightarrow> this_retry s))"
proof -
  have n: "nonpositive m = (m = MinusInfinity \<or> (\<exists>q. m = Finite q \<and> q \<le> 0))" for m
    by (cases m) auto
  show ?thesis
    by (auto simp: new_PromiseQueue_def initial_def n split: option.splits if_splits)
qed

theorem new_PromiseQueue_validation_witness:
  "(new_PromiseQueue \<lparr>maxConcurrent = Some (Finite 0), retry = None\<rparr> :: error + (nat, unit, nat) PromiseQueue)
      = Inl TypeError
   \<and> (\<exists>s :: (nat, unit, nat) PromiseQueue.
         new_PromiseQueue \<lparr>maxConcurrent = None, retry = None\<rparr> = Inr s
         \<and> this_maxConcurrent s = Infinity \<and> this_retry s \<and> below 1000 (this_maxConcurrent s))"
  using new_PromiseQueue_validation [where 'k = nat and 'a = unit and 'e = nat,
          of "\<lparr>maxConcurrent = Some (Finite 0), retry = None\<rparr>"]
        new_PromiseQueue_validation [where 'k = nat and 'a = unit and 'e = nat,
          of "\<lparr>maxConcurrent = None, retry = None\<rparr>"]
  by auto

subsection \<open>Adding a new key\<close>

text \<open>
  C9: \<^verbatim>\<open>add\<close> for a key without a job registers a new job. If a cycle is active and the
  counter is below the limit, the worker is called at once: the counter goes up and the
  call is logged and suspended. Otherwise the pair goes to the back of the queue and
  nothing else changes. Without an active cycle the pair always goes to the queue and no
  worker is called, neither by this \<^verbatim>\<open>add\<close> nor by any later events other than \<^verbatim>\<open>run\<close>.
\<close>

theorem add_new_key:
  assumes "map_of (this_processing s) key = None"
  shows "(this_runPromise s \<noteq> None \<and> below (this_numRunning s) (this_maxConcurrent s) \<longrightarrow>
            snd (add key args s) =
               s\<lparr>promises := promises s @ [Pending],
                 this_processing :=
                   AList.update key
                     \<lparr>deferred = length (promises s), promise = length (promises s), retried = False\<rparr>
                     (this_processing s),
                 this_numRunning := this_numRunning s + 1,
                 awaiting := awaiting s @
                   [(key, args,
                     \<lparr>deferred = length (promises s), promise = length (promises s), retried = False\<rparr>)],
                 calls := calls s @
                   [(key, args,
                     \<lparr>deferred = length (promises s), promise = length (promises s), retried = False\<rparr>)]\<rparr>)
       \<and> (\<not> (this_runPromise s \<noteq> None \<and> below (this_numRunning s) (this_maxConcurrent s)) \<longrightarrow>
            snd (add key args s) =
               s\<lparr>promises := promises s @ [Pending],
                 this_processing :=
                   AList.update key
                     \<lparr>deferred = length (promises s), promise = length (promises s), retried = False\<rparr>
                     (this_processing s),
                 this_queue := this_queue s @ [(key, args)]\<rparr>)
       \<and> (this_runPromise s = None \<longrightarrow>
            this_queue (snd (add key args s)) = this_queue s @ [(key, args)]
            \<and> calls (snd (add key args s)) = calls s
            \<and> (\<forall>evs. Run \<notin> set evs \<longrightarrow> calls (exec evs (snd (add key args s))) = calls s))"
proof (intro conjI impI allI)
  assume "this_runPromise s \<noteq> None \<and> below (this_numRunning s) (this_maxConcurrent s)"
  then show "snd (add key args s) =
               s\<lparr>promises := promises s @ [Pending],
                 this_processing :=
                   AList.update key
                     \<lparr>deferred = length (promises s), promise = length (promises s), retried = False\<rparr>
                     (this_processing s),
                 this_numRunning := this_numRunning s + 1,
                 awaiting := awaiting s @
                   [(key, args,
                     \<lparr>deferred = length (promises s), promise = length (promises s), retried = False\<rparr>)],
                 calls := calls s @
                   [(key, args,
                     \<lparr>deferred = length (promises s), promise = length (promises s), retried = False\<rparr>)]\<rparr>"
    using assms by (auto simp: add_def makeDeferredWithPromise_def Let_def runJob_def update_conv')
next
  assume "\<not> (this_runPromise s \<noteq> None \<and> below (this_numRunning s) (this_maxConcurrent s))"
  then show "snd (add key args s) =
               s\<lparr>promises := promises s @ [Pending],
                 this_processing :=
                   AList.update key
                     \<lparr>deferred = length (promises s), promise = length (promises s), retried = False\<rparr>
                     (this_processing s),
                 this_queue := this_queue s @ [(key, args)]\<rparr>"
    using assms by (auto simp: add_def makeDeferredWithPromise_def Let_def)
next
  assume "this_runPromise s = None"
  then show "this_queue (snd (add key args s)) = this_queue s @ [(key, args)]"
    using assms by (simp add: add_def makeDeferredWithPromise_def Let_def)
next
  assume "this_runPromise s = None"
  then show "calls (snd (add key args s)) = calls s"
    using assms by (simp add: add_def makeDeferredWithPromise_def Let_def)
next
  fix evs :: "('a, 'b, 'c) event list"
  assume inactive: "this_runPromise s = None" and "Run \<notin> set evs"
  then have "calls (exec evs (snd (add key args s))) = calls (snd (add key args s))"
    by (intro inactive_exec [THEN conjunct2]) simp_all
  also have "\<dots> = calls s"
    using assms inactive by (simp add: add_def makeDeferredWithPromise_def Let_def)
  finally show "calls (exec evs (snd (add key args s))) = calls s" .
qed

theorem add_new_key_witness:
  "map_of (this_processing (exec [Add 1 (), Run] (initial (Finite 2) True :: (nat, unit, nat) PromiseQueue))) 2 = None
   \<and> this_runPromise (exec [Add 1 (), Run] (initial (Finite 2) True :: (nat, unit, nat) PromiseQueue)) \<noteq> None
   \<and> below (this_numRunning (exec [Add 1 (), Run] (initial (Finite 2) True :: (nat, unit, nat) PromiseQueue)))
        (this_maxConcurrent (exec [Add 1 (), Run] (initial (Finite 2) True :: (nat, unit, nat) PromiseQueue)))
   \<and> calls (snd (add 2 () (exec [Add 1 (), Run] (initial (Finite 2) True :: (nat, unit, nat) PromiseQueue))))
      = [(1, (), \<lparr>deferred = 0, promise = 0, retried = False\<rparr>),
         (2, (), \<lparr>deferred = 2, promise = 2, retried = False\<rparr>)]
   \<and> map_of (this_processing (exec [Add 1 (), Run] (initial (Finite 1) True :: (nat, unit, nat) PromiseQueue))) 2 = None
   \<and> \<not> below (this_numRunning (exec [Add 1 (), Run] (initial (Finite 1) True :: (nat, unit, nat) PromiseQueue)))
        (this_maxConcurrent (exec [Add 1 (), Run] (initial (Finite 1) True :: (nat, unit, nat) PromiseQueue)))
   \<and> this_queue (snd (add 2 () (exec [Add 1 (), Run] (initial (Finite 1) True :: (nat, unit, nat) PromiseQueue))))
      = [(2, ())]
   \<and> calls (snd (add 2 () (exec [Add 1 (), Run] (initial (Finite 1) True :: (nat, unit, nat) PromiseQueue))))
      = [(1, (), \<lparr>deferred = 0, promise = 0, retried = False\<rparr>)]
   \<and> this_runPromise (initial (Finite 2) True :: (nat, unit, nat) PromiseQueue) = None
   \<and> this_queue (snd (add 1 () (initial (Finite 2) True :: (nat, unit, nat) PromiseQueue))) = [(1, ())]
   \<and> calls (exec [Add 2 (), Add 1 ()] (snd (add 1 () (initial (Finite 2) True :: (nat, unit, nat) PromiseQueue)))) = []"
proof -
  define a where "a = exec [Add 1 (), Run] (initial (Finite 2) True :: (nat, unit, nat) PromiseQueue)"
  define b where "b = exec [Add 1 (), Run] (initial (Finite 1) True :: (nat, unit, nat) PromiseQueue)"
  define c where "c = (initial (Finite 2) True :: (nat, unit, nat) PromiseQueue)"
  have a: "map_of (this_processing a) 2 = None" "this_runPromise a \<noteq> None"
    "below (this_numRunning a) (this_maxConcurrent a)"
    unfolding a_def by code_simp+
  have a': "calls a = [(1, (), \<lparr>deferred = 0, promise = 0, retried = False\<rparr>)]"
    "length (promises a) = 2"
    unfolding a_def by code_simp+
  from a add_new_key [OF a(1), of "()"]
  have "snd (add 2 () a) = a\<lparr>promises := promises a @ [Pending],
                 this_processing :=
                   AList.update 2
                     \<lparr>deferred = length (promises a), promise = length (promises a), retried = False\<rparr>
                     (this_processing a),
                 this_numRunning := this_numRunning a + 1,
                 awaiting := awaiting a @
                   [(2, (),
                     \<lparr>deferred = length (promises a), promise = length (promises a), retried = False\<rparr>)],
                 calls := calls a @
                   [(2, (),
                     \<lparr>deferred = length (promises a), promise = length (promises a), retried = False\<rparr>)]\<rparr>"
    by blast
  then have a'': "calls (snd (add 2 () a)) = [(1, (), \<lparr>deferred = 0, promise = 0, retried = False\<rparr>),
         (2, (), \<lparr>deferred = 2, promise = 2, retried = False\<rparr>)]"
    using a' by simp
  have b: "map_of (this_processing b) 2 = None"
    "\<not> below (this_numRunning b) (this_maxConcurrent b)"
    "calls b = [(1, (), \<lparr>deferred = 0, promise = 0, retried = False\<rparr>)]"
    "this_queue b = []"
    unfolding b_def by code_simp+
  from b add_new_key [OF b(1), of "()"]
  have "snd (add 2 () b) = b\<lparr>promises := promises b @ [Pending],
                 this_processing :=
                   AList.update 2
                     \<lparr>deferred = length (promises b), promise = length (promises b), retried = False\<rparr>
                     (this_processing b),
                 this_queue := this_queue b @ [(2, ())]\<rparr>"
    by blast
  then have b': "this_queue (snd (add 2 () b)) = [(2, ())]"
    "calls (snd (add 2 () b)) = [(1, (), \<lparr>deferred = 0, promise = 0, retried = False\<rparr>)]"
    using b by simp_all
  have c: "map_of (this_processing c) 1 = None" "this_runPromise c = None"
    "this_queue c = []" "calls c = []"
    unfolding c_def by code_simp+
  have r: "Run \<notin> set [Add (2::nat) (), Add 1 ()]" by simp
  from c r add_new_key [OF c(1), of "()"]
  have c': "this_queue (snd (add 1 () c)) = [(1, ())]"
    "calls (exec [Add 2 (), Add 1 ()] (snd (add 1 () c))) = []"
    by (metis append_Nil)+
  from a a'' b(1,2) b' c(2) c' show ?thesis
    unfolding a_def b_def c_def by blast
qed

subsection \<open>Running an empty queue\<close>

text \<open>
  C10: in a reachable state with an empty registry, \<^verbatim>\<open>run\<close> returns a new promise that
  is fulfilled when \<^verbatim>\<open>run\<close> returns; no worker is called, and no cycle is left active, so
  the next \<^verbatim>\<open>run\<close> returns another new promise, fulfilled in the same way.
\<close>

theorem run_on_empty_registry:
  assumes "reachable s" and "this_processing s = []"
  shows "\<exists>s'. run s = (Inr (length (promises s)), s')
           \<and> lookup (promises s') (length (promises s)) = Some Fulfilled
           \<and> calls s' = calls s \<and> awaiting s' = awaiting s
           \<and> this_processing s' = [] \<and> this_runPromise s' = None \<and> this_deferred s' = None
           \<and> (\<exists>s''. run s' = (Inr (Suc (length (promises s))), s'')
                 \<and> lookup (promises s'') (Suc (length (promises s))) = Some Fulfilled
                 \<and> lookup (promises s'') (length (promises s)) = Some Fulfilled)"
proof -
  have "cycle_ok s" using assms(1) by (rule reachable_cycle_ok)
  then have inactive: "this_runPromise s = None"
    using assms(2) by (cases "this_runPromise s") (auto simp: cycle_ok_def)
  from run_empty [OF assms(2) inactive] obtain s' where s':
    "run s = (Inr (length (promises s)), s')" "promises s' = promises s @ [Fulfilled]"
    "calls s' = calls s" "awaiting s' = awaiting s"
    "this_processing s' = []" "this_runPromise s' = None" "this_deferred s' = None"
    by blast
  from run_empty [OF s'(5,6)] obtain s'' where s'':
    "run s' = (Inr (length (promises s')), s'')" "promises s'' = promises s' @ [Fulfilled]"
    by blast
  have "lookup (promises s') (length (promises s)) = Some Fulfilled"
    using s'(2) by (simp add: lookup_def)
  moreover have "run s' = (Inr (Suc (length (promises s))), s'')"
    using s''(1) s'(2) by simp
  moreover have "lookup (promises s'') (Suc (length (promises s))) = Some Fulfilled"
    "lookup (promises s'') (length (promises s)) = Some Fulfilled"
    using s''(2) s'(2) by (simp_all add: lookup_def nth_append)
  ultimately show ?thesis using s' by blast
qed

theorem run_on_empty_registry_witness:
  "reachable (exec [Add 1 (), Run, Settle 0 Success] (initial Infinity True :: (nat, unit, nat) PromiseQueue))
   \<and> this_processing (exec [Add 1 (), Run, Settle 0 Success] (initial Infinity True :: (nat, unit, nat) PromiseQueue)) = []
   \<and> (\<exists>s'. run (exec [Add 1 (), Run, Settle 0 Success] (initial Infinity True :: (nat, unit, nat) PromiseQueue))
              = (Inr 2, s')
         \<and> lookup (promises s') 2 = Some Fulfilled
         \<and> calls s' = [(1, (), \<lparr>deferred = 0, promise = 0, retried = False\<rparr>)]
         \<and> this_runPromise s' = None
         \<and> (\<exists>s''. run s' = (Inr 3, s'') \<and> lookup (promises s'') 3 = Some Fulfilled))"
proof -
  define s where "s = exec [Add 1 (), Run, Settle 0 Success] (initial Infinity True :: (nat, unit, nat) PromiseQueue)"
  have r: "reachable s"
    unfolding s_def by (intro reachable_exec reachable_initial) simp
  have e: "this_processing s = []" "length (promises s) = 2"
    "calls s = [(1, (), \<lparr>deferred = 0, promise = 0, retried = False\<rparr>)]"
    unfolding s_def by code_simp+
  from run_on_empty_registry [OF r e(1)] e(2,3)
  have "\<exists>s'. run s = (Inr 2, s')
         \<and> lookup (promises s') 2 = Some Fulfilled
         \<and> calls s' = [(1, (), \<lparr>deferred = 0, promise = 0, retried = False\<rparr>)]
         \<and> this_runPromise s' = None
         \<and> (\<exists>s''. run s' = (Inr 3, s'') \<and> lookup (promises s'') 3 = Some Fulfilled)"
    by (auto simp: numeral_3_eq_3 numeral_2_eq_2)
  with r e(1) show ?thesis unfolding s_def by blast
qed

end
